theory Spec2Isabelle
  imports Complex_Main
begin

section \<open>ExpiringMap: a key-value container whose entries expire\<close>

text \<open>
  The embedding follows \<^verbatim>\<open>src/ExpiringMap.ts\<close>. The object's private fields, the
  part of the host it talks to (the clock read by \<^verbatim>\<open>Date.now()\<close> and the timers
  created by \<^verbatim>\<open>setTimeout\<close>) and the record of the calls made to the
  \<^verbatim>\<open>onExpire\<close> callback are the fields of one state record, passed through every
  operation.
\<close>

subsection \<open>Numbers\<close>

text \<open>
  The times and durations of the source (\<^verbatim>\<open>Date.now()\<close>, \<^verbatim>\<open>ttlMs\<close>,
  \<^verbatim>\<open>expiresAt\<close>) are JavaScript numbers. The embedding leaves the type of numbers open
  (the type variable \<open>'n\<close>, with its order and its addition), so that every definition
  below reads as the source does, and a statement says for which numbers it is proved:
  for all of them, for whole milliseconds added exactly (\<open>int\<close>), or for \<open>double\<close>,
  the finite IEEE 754 binary64 values that JavaScript computes with.

  A finite binary64 value is a rational \<open>m * 2 ^ e\<close> with \<open>\<bar>m\<bar> < 2 ^ 53\<close> and
  \<open>- 1074 \<le> e\<close>. The sum of two of them is the exact sum rounded to the nearest such
  value, a tie going to the even \<open>m\<close> (\<open>round_double\<close>). Around \<open>x\<close> the values are
  \<open>2 ^ e\<close> apart, \<open>e = max (\<lfloor>log\<^sub>2 \<bar>x\<bar>\<rfloor> - 52) (- 1074)\<close>. Sums of magnitude \<open>2 ^ 1024\<close>
  and above (JavaScript's \<^verbatim>\<open>Infinity\<close>), \<^verbatim>\<open>NaN\<close> and the sign of zero are not
  modelled; \<^verbatim>\<open>Date.now() + ttl\<close> stays far below that bound for every finite \<^verbatim>\<open>ttl\<close>.
\<close>

definition pow2 :: "int \<Rightarrow> rat" where
  "pow2 e = (if 0 \<le> e then 2 ^ nat e else 1 / 2 ^ nat (- e))"

text \<open>The number of binary digits of a positive integer, and \<open>\<lfloor>log\<^sub>2 x\<rfloor>\<close> for \<open>x > 0\<close>.\<close>

function bit_length :: "int \<Rightarrow> int" where
  "bit_length n = (if n \<le> 0 then 0 else 1 + bit_length (n div 2))"
  by pat_completeness auto
termination
  by (relation "measure nat") auto

declare bit_length.simps [simp del]

definition floor_log2 :: "rat \<Rightarrow> int" where
  "floor_log2 x =
     (if 1 \<le> x then bit_length \<lfloor>x\<rfloor> - 1 else - bit_length (\<lceil>1 / x\<rceil> - 1))"

text \<open>The nearest integer, a tie going to the even one.\<close>

definition round_even :: "rat \<Rightarrow> int" where
  "round_even x =
     (let n = \<lfloor>x\<rfloor>; r = x - of_int n
      in if r < 1 / 2 then n else if 1 / 2 < r then n + 1 else if even n then n else n + 1)"

definition round_double :: "rat \<Rightarrow> rat" where
  "round_double x =
     (if x = 0 then 0
      else (let e = max (floor_log2 \<bar>x\<bar> - 52) (- 1074)
            in of_int (round_even (x / pow2 e)) * pow2 e))"

text \<open>
  A number of type \<open>double\<close> is given by its rational value; \<open>+\<close> rounds, the order is
  that of the values.
\<close>

datatype double = Double (rat_of: rat)

instantiation double :: "{zero, plus, linorder}"
begin

definition zero_double :: double where
  "0 = Double 0"

definition plus_double :: "double \<Rightarrow> double \<Rightarrow> double" where
  "a + b = Double (round_double (rat_of a + rat_of b))"

definition less_eq_double :: "double \<Rightarrow> double \<Rightarrow> bool" where
  "a \<le> b \<longleftrightarrow> rat_of a \<le> rat_of b"

definition less_double :: "double \<Rightarrow> double \<Rightarrow> bool" where
  "a < b \<longleftrightarrow> rat_of a < rat_of b"

instance
  by standard (auto simp: less_eq_double_def less_double_def double.expand)

end





subsection \<open>Entries and the underlying Map\<close>

text \<open>
  \<^verbatim>\<open>interface Entry<V> { value: V; expiresAt: number; timeout?: Timeout }\<close>.
  A timer handle is a number chosen by the host; every handle is truthy.
\<close>

record ('v, 'n) entry =
  val :: 'v
  expiresAt :: 'n
  timeout :: "nat option"

text \<open>
  \<^verbatim>\<open>#store = new Map<K, Entry<V>>()\<close>. A JavaScript Map is a list of slots in
  insertion order. Deleting a key empties its slot and leaves the slot in the list, a new
  key is appended at the end, a key that is present keeps its slot when it is set again,
  and an iterator over the Map is an index into this list. An empty slot is \<open>None\<close>.
\<close>

type_synonym ('k, 'v, 'n) slot = "('k \<times> ('v, 'n) entry) option"
type_synonym ('k, 'v, 'n) mapdata = "('k, 'v, 'n) slot list"

fun live :: "('k, 'v, 'n) mapdata \<Rightarrow> ('k \<times> ('v, 'n) entry) list" where
  "live [] = []"
| "live (None # ps) = live ps"
| "live (Some p # ps) = p # live ps"

fun store_get :: "('k, 'v, 'n) mapdata \<Rightarrow> 'k \<Rightarrow> ('v, 'n) entry option" where
  "store_get [] k = None"
| "store_get (None # ps) k = store_get ps k"
| "store_get (Some (k', e) # ps) k = (if k' = k then Some e else store_get ps k)"

fun store_set :: "'k \<Rightarrow> ('v, 'n) entry \<Rightarrow> ('k, 'v, 'n) mapdata \<Rightarrow> ('k, 'v, 'n) mapdata" where
  "store_set k e [] = [Some (k, e)]"
| "store_set k e (None # ps) = None # store_set k e ps"
| "store_set k e (Some (k', e') # ps) =
     (if k' = k then Some (k, e) # ps else Some (k', e') # store_set k e ps)"

fun store_remove :: "'k \<Rightarrow> ('k, 'v, 'n) mapdata \<Rightarrow> ('k, 'v, 'n) mapdata" where
  "store_remove k [] = []"
| "store_remove k (None # ps) = None # store_remove k ps"
| "store_remove k (Some (k', e) # ps) =
     (if k' = k then None # ps else Some (k', e) # store_remove k ps)"

definition store_delete :: "'k \<Rightarrow> ('k, 'v, 'n) mapdata \<Rightarrow> bool \<times> ('k, 'v, 'n) mapdata" where
  "store_delete k ps =
     ((case store_get ps k of None \<Rightarrow> False | Some _ \<Rightarrow> True), store_remove k ps)"

definition store_clear :: "('k, 'v, 'n) mapdata \<Rightarrow> ('k, 'v, 'n) mapdata" where
  "store_clear ps = map (\<lambda>_. None) ps"

definition store_size :: "('k, 'v, 'n) mapdata \<Rightarrow> nat" where
  "store_size ps = length (live ps)"

subsection \<open>The state: the object, the host, the calls of the callback\<close>

text \<open>
  A pending timer of the host: its handle, the key captured by the closure given to
  \<^verbatim>\<open>setTimeout\<close> in \<^verbatim>\<open>set\<close>, and the time it is due (the time of the call
  plus the delay). A host may run a timer later than that, and Node.js takes a delay
  below 1 ms or above \<open>2\<^sup>3\<^sup>1 - 1\<close> ms as 1 ms: no statement below turns on the due
  time of a timer with such a delay.
\<close>

record ('k, 'n) timer =
  tid :: nat
  tkey :: 'k
  due :: 'n

text \<open>
  One call \<^verbatim>\<open>this.#onExpire(key, value)\<close>, with the contents of
  \<^verbatim>\<open>#store\<close> at the moment the callback is entered (what the callback would see).
\<close>

record ('k, 'v, 'n) call =
  call_key :: 'k
  call_value :: 'v
  call_store :: "('k, 'v, 'n) mapdata"

text \<open>
  \<open>onExpire\<close> tells whether a callback was given; the callback itself is observed
  through \<open>calls\<close>, in the order of the calls.
\<close>

record ('k, 'v, 'n) state =
  defaultTtlMs :: 'n
  lazyEviction :: bool
  onExpire :: bool
  store :: "('k, 'v, 'n) mapdata"
  clock :: 'n
  timers :: "('k, 'n) timer list"
  nextTimer :: nat
  calls :: "('k, 'v, 'n) call list"

record 'n options =
  opt_defaultTtlMs :: 'n
  opt_lazyEviction :: "bool option"
  opt_onExpire :: bool

datatype error = Error string

subsection \<open>The host: timers and the clock\<close>

definition setTimeout :: "'k \<Rightarrow> 'n \<Rightarrow> ('k, 'v, 'n::plus) state \<Rightarrow> nat \<times> ('k, 'v, 'n) state" where
  "setTimeout k delay s =
     (nextTimer s,
      s\<lparr>timers := timers s @ [\<lparr>tid = nextTimer s, tkey = k, due = clock s + delay\<rparr>],
        nextTimer := Suc (nextTimer s)\<rparr>)"

definition clearTimeout :: "nat \<Rightarrow> ('k, 'v, 'n) state \<Rightarrow> ('k, 'v, 'n) state" where
  "clearTimeout t s = s\<lparr>timers := filter (\<lambda>x. tid x \<noteq> t) (timers s)\<rparr>"

definition call_onExpire :: "'k \<Rightarrow> 'v \<Rightarrow> ('k, 'v, 'n) state \<Rightarrow> ('k, 'v, 'n) state" where
  "call_onExpire k v s =
     (if onExpire s
      then s\<lparr>calls := calls s @ [\<lparr>call_key = k, call_value = v, call_store = store s\<rparr>]\<rparr>
      else s)"

text \<open>The closure handed to \<^verbatim>\<open>setTimeout\<close> in \<^verbatim>\<open>set\<close> (lines 45-53).\<close>

definition timer_callback :: "'k \<Rightarrow> ('k, 'v, 'n) state \<Rightarrow> ('k, 'v, 'n) state" where
  "timer_callback key s =
     (case store_get (store s) key of
        None \<Rightarrow> s
      | Some entry \<Rightarrow>
          call_onExpire key (val entry) (s\<lparr>store := snd (store_delete key (store s))\<rparr>))"

text \<open>The host runs the pending timer \<open>t\<close>: it leaves the pending timers and its closure runs.\<close>

definition fire :: "nat \<Rightarrow> ('k, 'v, 'n) state \<Rightarrow> ('k, 'v, 'n) state" where
  "fire t s =
     (case find (\<lambda>x. tid x = t) (timers s) of
        None \<Rightarrow> s
      | Some x \<Rightarrow> timer_callback (tkey x) (s\<lparr>timers := filter (\<lambda>y. tid y \<noteq> t) (timers s)\<rparr>))"

text \<open>
  Time passes while code runs (\<open>elapse\<close>: no timer runs inside running code), and when
  the code has returned to the event loop the host runs the timers that are due, earliest
  first (\<open>run_timers\<close>). \<open>wait\<close> is a \<^verbatim>\<open>setTimeout\<close> of the caller: both.
\<close>

definition elapse :: "'n \<Rightarrow> ('k, 'v, 'n::plus) state \<Rightarrow> ('k, 'v, 'n) state" where
  "elapse d s = s\<lparr>clock := clock s + d\<rparr>"

definition due_timers :: "('k, 'v, 'n::linorder) state \<Rightarrow> nat list" where
  "due_timers s = map tid (sort_key due (filter (\<lambda>x. due x \<le> clock s) (timers s)))"

definition run_timers :: "('k, 'v, 'n::linorder) state \<Rightarrow> ('k, 'v, 'n) state" where
  "run_timers s = fold fire (due_timers s) s"

definition wait :: "'n \<Rightarrow> ('k, 'v, 'n::{linorder,plus}) state \<Rightarrow> ('k, 'v, 'n) state" where
  "wait d s = run_timers (elapse d s)"

subsection \<open>The operations of the class\<close>

definition new_ExpiringMap :: "'n options \<Rightarrow> 'n \<Rightarrow> error + ('k, 'v, 'n::{linorder,zero}) state" where
  "new_ExpiringMap opts now =
     (if opt_defaultTtlMs opts \<le> 0 then Inl (Error ''TTL must be greater than 0'')
      else Inr \<lparr>defaultTtlMs = opt_defaultTtlMs opts,
                lazyEviction = (case opt_lazyEviction opts of None \<Rightarrow> False | Some b \<Rightarrow> b),
                onExpire = opt_onExpire opts,
                store = [],
                clock = now, timers = [], nextTimer = 1, calls = []\<rparr>)"

definition isExpired :: "('k, 'v, 'n::linorder) state \<Rightarrow> ('v, 'n) entry \<Rightarrow> bool" where
  "isExpired s entry = (clock s \<ge> expiresAt entry)"

definition delete :: "'k \<Rightarrow> ('k, 'v, 'n) state \<Rightarrow> bool \<times> ('k, 'v, 'n) state" where
  "delete key s =
     (let s1 = (case store_get (store s) key of
                  None \<Rightarrow> s
                | Some entry \<Rightarrow> (case timeout entry of None \<Rightarrow> s | Some t \<Rightarrow> clearTimeout t s))
      in (fst (store_delete key (store s1)), s1\<lparr>store := snd (store_delete key (store s1))\<rparr>))"

definition set_op :: "'k \<Rightarrow> 'v \<Rightarrow> 'n option \<Rightarrow> ('k, 'v, 'n::plus) state \<Rightarrow> ('k, 'v, 'n) state" where
  "set_op key v ttlMs s =
     (let ttl = (case ttlMs of None \<Rightarrow> defaultTtlMs s | Some t \<Rightarrow> t);
          expires = clock s + ttl
      in if lazyEviction s
         then (let s1 = snd (delete key s)
               in s1\<lparr>store := store_set key \<lparr>val = v, expiresAt = expires, timeout = None\<rparr> (store s1)\<rparr>)
         else (let (t, s1) = setTimeout key ttl s
               in s1\<lparr>store := store_set key \<lparr>val = v, expiresAt = expires, timeout = Some t\<rparr> (store s1)\<rparr>))"

definition get :: "'k \<Rightarrow> ('k, 'v, 'n::linorder) state \<Rightarrow> 'v option \<times> ('k, 'v, 'n) state" where
  "get key s =
     (case store_get (store s) key of
        None \<Rightarrow> (None, s)
      | Some entry \<Rightarrow>
          if lazyEviction s \<and> isExpired s entry
          then (None, call_onExpire key (val entry) (snd (delete key s)))
          else (Some (val entry), s))"

definition has :: "'k \<Rightarrow> ('k, 'v, 'n::linorder) state \<Rightarrow> bool \<times> ('k, 'v, 'n) state" where
  "has key s =
     (case store_get (store s) key of
        None \<Rightarrow> (False, s)
      | Some entry \<Rightarrow>
          if lazyEviction s \<and> isExpired s entry
          then (False, call_onExpire key (val entry) (snd (delete key s)))
          else (True, s))"

definition clear :: "('k, 'v, 'n) state \<Rightarrow> ('k, 'v, 'n) state" where
  "clear s =
     (let s1 = fold (\<lambda>(k, entry) s'. case timeout entry of None \<Rightarrow> s' | Some t \<Rightarrow> clearTimeout t s')
                 (live (store s)) s
      in s1\<lparr>store := store_clear (store s1)\<rparr>)"

subsection \<open>The loops over the store: size and the generators\<close>

text \<open>
  \<^verbatim>\<open>has\<close> empties at most one slot and never adds one: the loops below, which walk the
  slots by index while calling \<^verbatim>\<open>has\<close>, end.
\<close>

lemma length_store_remove [simp]: "length (store_remove k ps) = length ps"
  by (induction k ps rule: store_remove.induct) auto

lemma store_call_onExpire [simp]: "store (call_onExpire k v s) = store s"
  by (simp add: call_onExpire_def)

lemma store_clearTimeout [simp]: "store (clearTimeout t s) = store s"
  by (simp add: clearTimeout_def)

lemma store_delete_state: "store (snd (delete k s)) = store_remove k (store s)"
  by (simp add: delete_def store_delete_def Let_def split: option.splits)

lemma length_store_has [simp]: "length (store (snd (has k s))) = length (store s)"
  by (simp add: has_def store_delete_state split: option.splits)

text \<open>
  The getter \<^verbatim>\<open>size\<close>: under lazy eviction, the loop
  \<^verbatim>\<open>for (const key of this.#store.keys()) this.has(key)\<close> from slot \<open>i\<close> on.
\<close>

function sweep :: "nat \<Rightarrow> ('k, 'v, 'n::linorder) state \<Rightarrow> ('k, 'v, 'n) state" where
  "sweep i s =
     (if i < length (store s)
      then (case store s ! i of
              None \<Rightarrow> sweep (Suc i) s
            | Some (key, entry) \<Rightarrow> sweep (Suc i) (snd (has key s)))
      else s)"
  by pat_completeness auto
termination
  by (relation "measure (\<lambda>(i, s). length (store s) - i)") auto

declare sweep.simps [simp del]

definition size_op :: "('k, 'v, 'n::linorder) state \<Rightarrow> nat \<times> ('k, 'v, 'n) state" where
  "size_op s =
     (if \<not> lazyEviction s then (store_size (store s), s)
      else (let s1 = sweep 0 s in (store_size (store s1), s1)))"

text \<open>
  The generators \<^verbatim>\<open>keys\<close>, \<^verbatim>\<open>values\<close> (here \<open>values_gen\<close>) and
  \<^verbatim>\<open>entries\<close>. A generator is
  suspended at a slot index, or has returned. One call of its \<^verbatim>\<open>next()\<close> resumes
  the loop \<^verbatim>\<open>for (const [key, entry] of this.#store.entries()) if (this.has(key)) yield ...\<close>
  at that index, in the state of the moment of the call, until the next \<^verbatim>\<open>yield\<close>
  or the end of the slots. The three loops differ only in what they yield of the slot.
\<close>

datatype iter = At nat | Done

function scan :: "nat \<Rightarrow> ('k, 'v, 'n::linorder) state \<Rightarrow> ('k \<times> ('v, 'n) entry) option \<times> iter \<times> ('k, 'v, 'n) state" where
  "scan i s =
     (if i < length (store s)
      then (case store s ! i of
              None \<Rightarrow> scan (Suc i) s
            | Some (key, entry) \<Rightarrow>
                (if fst (has key s) then (Some (key, entry), At (Suc i), snd (has key s))
                 else scan (Suc i) (snd (has key s))))
      else (None, Done, s))"
  by pat_completeness auto
termination
  by (relation "measure (\<lambda>(i, s). length (store s) - i)") auto

declare scan.simps [simp del]

definition next_of :: "(('k \<times> ('v, 'n) entry) \<Rightarrow> 'a) \<Rightarrow> iter \<Rightarrow> ('k, 'v, 'n::linorder) state \<Rightarrow> 'a option \<times> iter \<times> ('k, 'v, 'n) state" where
  "next_of f it s =
     (case it of
        Done \<Rightarrow> (None, Done, s)
      | At i \<Rightarrow> (case scan i s of (r, it', s') \<Rightarrow> (map_option f r, it', s')))"

definition keys :: iter where
  "keys = At 0"

definition keys_next :: "iter \<Rightarrow> ('k, 'v, 'n::linorder) state \<Rightarrow> 'k option \<times> iter \<times> ('k, 'v, 'n) state" where
  "keys_next = next_of (\<lambda>(key, entry). key)"

definition values_gen :: iter where
  "values_gen = At 0"

definition values_next :: "iter \<Rightarrow> ('k, 'v, 'n::linorder) state \<Rightarrow> 'v option \<times> iter \<times> ('k, 'v, 'n) state" where
  "values_next = next_of (\<lambda>(key, entry). val entry)"

definition entries :: iter where
  "entries = At 0"

definition entries_next :: "iter \<Rightarrow> ('k, 'v, 'n::linorder) state \<Rightarrow> ('k \<times> 'v) option \<times> iter \<times> ('k, 'v, 'n) state" where
  "entries_next = next_of (\<lambda>(key, entry). (key, val entry))"

lemma scan_Some:
  "scan i s = (Some x, it, s') \<Longrightarrow>
     \<exists>j. it = At (Suc j) \<and> i \<le> j \<and> j < length (store s) \<and> length (store s') = length (store s)"
proof (induction i s rule: scan.induct)
  case (1 i s)
  show ?case
  proof (cases "i < length (store s)")
    case False
    with "1.prems" show ?thesis by (simp add: scan.simps[of i s])
  next
    case True
    note lt = this
    show ?thesis
    proof (cases "store s ! i")
      case None
      with lt "1.prems" have "scan (Suc i) s = (Some x, it, s')"
        by (simp add: scan.simps[of i s])
      from "1.IH"(1)[OF lt None this] show ?thesis by auto
    next
      case (Some p)
      obtain k e where p: "p = (k, e)" by (cases p)
      show ?thesis
      proof (cases "fst (has k s)")
        case True
        with lt Some p "1.prems" show ?thesis
          by (auto simp add: scan.simps[of i s])
      next
        case False
        with lt Some p "1.prems" have "scan (Suc i) (snd (has k s)) = (Some x, it, s')"
          by (simp add: scan.simps[of i s])
        from "1.IH"(2)[OF lt Some[unfolded p] refl False this] show ?thesis by auto
      qed
    qed
  qed
qed

lemma scan_measure:
  "scan i s = (Some x, it', s') \<Longrightarrow>
     (case it' of At j \<Rightarrow> Suc (length (store s')) - j | Done \<Rightarrow> 0) < Suc (length (store s)) - i"
  using scan_Some[of i s x it' s'] by auto

text \<open>
  Running a generator to its end with nothing in between, as \<^verbatim>\<open>Array.from(map.entries())\<close>
  and \<^verbatim>\<open>forEach\<close> do: the slots yielded, in the order of the yields.
\<close>

function collect :: "iter \<Rightarrow> ('k, 'v, 'n::linorder) state \<Rightarrow> ('k \<times> ('v, 'n) entry) list \<times> ('k, 'v, 'n) state" where
  "collect it s =
     (case it of
        Done \<Rightarrow> ([], s)
      | At i \<Rightarrow>
          (case scan i s of
             (None, it', s') \<Rightarrow> ([], s')
           | (Some x, it', s') \<Rightarrow> (case collect it' s' of (xs, s'') \<Rightarrow> (x # xs, s''))))"
  by pat_completeness auto
termination
proof (relation "measure (\<lambda>(it, s). case it of Done \<Rightarrow> 0 | At i \<Rightarrow> Suc (length (store s)) - i)", goal_cases)
  case 1
  show ?case by simp
next
  case (2 it s i r rest x it' s')
  then have "scan i s = (Some x, it', s')" by simp
  from scan_measure[OF this] 2 show ?case by auto
qed

declare collect.simps [simp del]

text \<open>
  \<^verbatim>\<open>forEach(callback)\<close> runs \<^verbatim>\<open>entries()\<close> to its end and calls the callback with
  \<^verbatim>\<open>(value, key, this)\<close> at each yield: the pairs (value, key) of these calls, in
  their order. \<^verbatim>\<open>[Symbol.iterator]()\<close> returns \<^verbatim>\<open>this.entries()\<close>.
\<close>

definition forEach :: "('k, 'v, 'n::linorder) state \<Rightarrow> ('v \<times> 'k) list \<times> ('k, 'v, 'n) state" where
  "forEach s =
     (case collect entries s of (xs, s') \<Rightarrow> (map (\<lambda>(key, entry). (val entry, key)) xs, s'))"

definition iterator :: iter where
  "iterator = entries"

subsection \<open>The public operations, with their outcome\<close>

text \<open>
  Every public member of the class as one operation: the constructor, the methods, the
  getter \<^verbatim>\<open>size\<close>, and \<^verbatim>\<open>next()\<close> on a generator the class handed out. An operation
  ends with an error (\<open>Inl\<close>) or returns a value and leaves a state (\<open>Inr\<close>). The
  constructor's \<^verbatim>\<open>throw\<close> is the only one in the source. The other members cannot fail
  on a missing entry either: \<^verbatim>\<open>get\<close> and \<^verbatim>\<open>has\<close> return at \<^verbatim>\<open>if (!entry)\<close> before
  they read a field of it, \<^verbatim>\<open>delete\<close> reads \<^verbatim>\<open>entry?.timeout\<close>, the loops read the
  entries the Map itself hands them, and \<^verbatim>\<open>onExpire\<close> is called under
  \<^verbatim>\<open>if (this.#onExpire)\<close>. The callbacks are the caller's code: what they do, failing
  included, is not part of the class.
\<close>

datatype ('k, 'v, 'n) operation =
    Op_new "'n options" 'n
  | Op_set 'k 'v "'n option"
  | Op_get 'k
  | Op_has 'k
  | Op_delete 'k
  | Op_clear
  | Op_size
  | Op_keys
  | Op_values
  | Op_entries
  | Op_iterator
  | Op_forEach
  | Op_keys_next iter
  | Op_values_next iter
  | Op_entries_next iter

datatype ('k, 'v) returned =
    This
  | Undefined
  | Value "'v option"
  | Boolean bool
  | Count nat
  | Generator iter
  | Key_step "'k option" iter
  | Value_step "'v option" iter
  | Entry_step "('k \<times> 'v) option" iter
  | Callback_calls "('v \<times> 'k) list"

definition call ::
  "('k, 'v, 'n::{linorder,plus,zero}) operation \<Rightarrow> ('k, 'v, 'n) state
     \<Rightarrow> error + (('k, 'v) returned \<times> ('k, 'v, 'n) state)" where
  "call op s =
     (case op of
        Op_new opts now \<Rightarrow>
          (case new_ExpiringMap opts now of Inl e \<Rightarrow> Inl e | Inr s' \<Rightarrow> Inr (This, s'))
      | Op_set key v ttlMs \<Rightarrow> Inr (This, set_op key v ttlMs s)
      | Op_get key \<Rightarrow> (case get key s of (r, s') \<Rightarrow> Inr (Value r, s'))
      | Op_has key \<Rightarrow> (case has key s of (r, s') \<Rightarrow> Inr (Boolean r, s'))
      | Op_delete key \<Rightarrow> (case delete key s of (r, s') \<Rightarrow> Inr (Boolean r, s'))
      | Op_clear \<Rightarrow> Inr (Undefined, clear s)
      | Op_size \<Rightarrow> (case size_op s of (r, s') \<Rightarrow> Inr (Count r, s'))
      | Op_keys \<Rightarrow> Inr (Generator keys, s)
      | Op_values \<Rightarrow> Inr (Generator values_gen, s)
      | Op_entries \<Rightarrow> Inr (Generator entries, s)
      | Op_iterator \<Rightarrow> Inr (Generator iterator, s)
      | Op_forEach \<Rightarrow> (case forEach s of (r, s') \<Rightarrow> Inr (Callback_calls r, s'))
      | Op_keys_next it \<Rightarrow> (case keys_next it s of (r, it', s') \<Rightarrow> Inr (Key_step r it', s'))
      | Op_values_next it \<Rightarrow> (case values_next it s of (r, it', s') \<Rightarrow> Inr (Value_step r it', s'))
      | Op_entries_next it \<Rightarrow> (case entries_next it s of (r, it', s') \<Rightarrow> Inr (Entry_step r it', s')))"

subsection \<open>Notions used in the statements\<close>

text \<open>
  The keys of the occupied slots are distinct: \<^verbatim>\<open>Map.prototype.set\<close> appends a slot
  only for a key that has none. Every operation keeps this, from the empty store on.
\<close>

definition keys_distinct :: "('k, 'v, 'n) mapdata \<Rightarrow> bool" where
  "keys_distinct ps = distinct (map fst (live ps))"

text \<open>The calls of the callback so far, as the pairs (key, value) it was given.\<close>

definition notified :: "('k, 'v, 'n) state \<Rightarrow> ('k \<times> 'v) list" where
  "notified s = map (\<lambda>c. (call_key c, call_value c)) (calls s)"

text \<open>
  The test made by \<^verbatim>\<open>get\<close> and \<^verbatim>\<open>has\<close> on a stored entry (it passes unless the
  eviction is lazy and the entry expired), and what a \<^verbatim>\<open>has\<close> of its key leaves of a
  slot.
\<close>

definition passes :: "('k, 'v, 'n::linorder) state \<Rightarrow> ('v, 'n) entry \<Rightarrow> bool" where
  "passes s e = (\<not> (lazyEviction s \<and> expiresAt e \<le> clock s))"

definition evict :: "('k, 'v, 'n::linorder) state \<Rightarrow> ('k, 'v, 'n) slot \<Rightarrow> ('k, 'v, 'n) slot" where
  "evict s p = (case p of None \<Rightarrow> None | Some (k, e) \<Rightarrow> if passes s e then Some (k, e) else None)"

text \<open>
  Every call of the callback so far found its key already gone from the store.
\<close>

definition removed_first :: "('k, 'v, 'n) state \<Rightarrow> bool" where
  "removed_first s = (\<forall>c \<in> set (calls s). store_get (call_store c) (call_key c) = None)"

text \<open>
  Two containers as the tests build them, at time 0: \<^verbatim>\<open>defaultTtlMs: 50\<close>, a callback
  given, lazy and eager eviction.
\<close>

definition lazy_map :: "(string, nat, int) state" where
  "lazy_map = \<lparr>defaultTtlMs = 50, lazyEviction = True, onExpire = True, store = [],
                clock = 0, timers = [], nextTimer = 1, calls = []\<rparr>"

definition eager_map :: "(string, nat, int) state" where
  "eager_map = \<lparr>defaultTtlMs = 50, lazyEviction = False, onExpire = True, store = [],
                 clock = 0, timers = [], nextTimer = 1, calls = []\<rparr>"


section \<open>The rounding of doubles\<close>














lemma not_absorbed: "Double 1700000000000 + Double 50 = Double 1700000000050"
  unfolding plus_double_def by code_simp

section \<open>Properties of the underlying Map\<close>

lemma store_get_map_of: "store_get ps k = map_of (live ps) k"
  by (induction ps k rule: store_get.induct) auto

lemma store_get_set_same [simp]: "store_get (store_set k e ps) k = Some e"
  by (induction k e ps rule: store_set.induct) auto

lemma store_get_set_other [simp]: "k' \<noteq> k \<Longrightarrow> store_get (store_set k e ps) k' = store_get ps k'"
  by (induction k e ps rule: store_set.induct) auto

lemma store_get_remove_other [simp]: "k' \<noteq> k \<Longrightarrow> store_get (store_remove k ps) k' = store_get ps k'"
  by (induction k ps rule: store_remove.induct) auto

lemma store_get_None_iff: "store_get ps k = None \<longleftrightarrow> k \<notin> fst ` set (live ps)"
  by (induction ps k rule: store_get.induct) (auto simp: rev_image_eqI)

lemma keys_store_remove: "map fst (live (store_remove k ps)) = remove1 k (map fst (live ps))"
  by (induction k ps rule: store_remove.induct) auto

lemma keys_store_set:
  "map fst (live (store_set k e ps)) =
     (if k \<in> fst ` set (live ps) then map fst (live ps) else map fst (live ps) @ [k])"
  by (induction k e ps rule: store_set.induct) (auto simp: rev_image_eqI)

lemma keys_distinct_remove: "keys_distinct ps \<Longrightarrow> keys_distinct (store_remove k ps)"
  by (simp add: keys_distinct_def keys_store_remove)

lemma keys_distinct_set: "keys_distinct ps \<Longrightarrow> keys_distinct (store_set k e ps)"
  by (auto simp add: keys_distinct_def keys_store_set)

lemma store_get_remove_same: "keys_distinct ps \<Longrightarrow> store_get (store_remove k ps) k = None"
  by (simp add: store_get_None_iff keys_distinct_def keys_store_remove flip: set_map)

lemma store_remove_absent: "store_get ps k = None \<Longrightarrow> store_remove k ps = ps"
  by (induction k ps rule: store_remove.induct) (auto split: if_splits)

lemma live_store_clear [simp]: "live (store_clear ps) = []"
  by (induction ps) (auto simp: store_clear_def)

section \<open>Facts about the state after an operation\<close>

lemma example_maps:
  "new_ExpiringMap \<lparr>opt_defaultTtlMs = 50, opt_lazyEviction = Some True, opt_onExpire = True\<rparr> 0
     = Inr lazy_map"
  "new_ExpiringMap \<lparr>opt_defaultTtlMs = 50, opt_lazyEviction = None, opt_onExpire = True\<rparr> 0
     = Inr eager_map"
  by (simp_all add: new_ExpiringMap_def lazy_map_def eager_map_def)

lemmas eval_defs =
  lazy_map_def eager_map_def set_op_def get_def has_def delete_def store_delete_def
  setTimeout_def clearTimeout_def call_onExpire_def isExpired_def elapse_def
  keys_distinct_def notified_def Let_def

lemma delete_absent: "store_get (store s) k = None \<Longrightarrow> delete k s = (False, s)"
  by (simp add: delete_def store_delete_def store_remove_absent)

lemma delete_fields [simp]:
  "calls (snd (delete k s)) = calls s"
  "clock (snd (delete k s)) = clock s"
  "lazyEviction (snd (delete k s)) = lazyEviction s"
  "onExpire (snd (delete k s)) = onExpire s"
  "defaultTtlMs (snd (delete k s)) = defaultTtlMs s"
  "nextTimer (snd (delete k s)) = nextTimer s"
  by (simp_all add: delete_def clearTimeout_def Let_def split: option.splits)

lemma delete_store [simp]: "store (snd (delete k s)) = store_remove k (store s)"
  by (rule store_delete_state)

lemma delete_result: "fst (delete k s) = (store_get (store s) k \<noteq> None)"
  by (simp add: delete_def store_delete_def Let_def split: option.splits)

lemma delete_timers:
  "timers (snd (delete k s)) =
     (case store_get (store s) k of
        None \<Rightarrow> timers s
      | Some e \<Rightarrow> (case timeout e of None \<Rightarrow> timers s
                  | Some t \<Rightarrow> filter (\<lambda>x. tid x \<noteq> t) (timers s)))"
  by (simp add: delete_def clearTimeout_def Let_def split: option.splits)

lemma set_op_stores:
  "store_get (store (set_op k v ttlMs s)) k =
     Some \<lparr>val = v,
           expiresAt = clock s + (case ttlMs of None \<Rightarrow> defaultTtlMs s | Some t \<Rightarrow> t),
           timeout = (if lazyEviction s then None else Some (nextTimer s))\<rparr>"
  by (simp add: set_op_def setTimeout_def Let_def split: option.splits)

lemma set_op_fields [simp]:
  "calls (set_op k v ttlMs s) = calls s"
  "clock (set_op k v ttlMs s) = clock s"
  "lazyEviction (set_op k v ttlMs s) = lazyEviction s"
  "onExpire (set_op k v ttlMs s) = onExpire s"
  "defaultTtlMs (set_op k v ttlMs s) = defaultTtlMs s"
  by (simp_all add: set_op_def setTimeout_def Let_def split: option.splits)

lemma elapse_fields [simp]:
  "calls (elapse d s) = calls s"
  "clock (elapse d s) = clock s + d"
  "lazyEviction (elapse d s) = lazyEviction s"
  "onExpire (elapse d s) = onExpire s"
  "store (elapse d s) = store s"
  "timers (elapse d s) = timers s"
  by (simp_all add: elapse_def)

lemma notified_elapse [simp]: "notified (elapse d s) = notified s"
  by (simp add: notified_def)

lemma notified_set_op [simp]: "notified (set_op k v ttlMs s) = notified s"
  by (simp add: notified_def)

lemmas host_defs = wait_def run_timers_def due_timers_def fire_def timer_callback_def

lemma store_get_remove_None: "store_get ps k = None \<Longrightarrow> store_get (store_remove k' ps) k = None"
  by (cases "k' = k") (simp_all add: store_remove_absent)

lemma timer_callback_absent:
  assumes "store_get (store s) k = None"
  shows "store_get (store (timer_callback k' s)) k = None"
    and "filter (\<lambda>c. call_key c = k) (calls (timer_callback k' s)) = filter (\<lambda>c. call_key c = k) (calls s)"
  using assms
  by (auto simp: timer_callback_def call_onExpire_def store_delete_def store_get_remove_None
           split: option.splits)

lemma fire_absent:
  assumes "store_get (store s) k = None"
  shows "store_get (store (fire t s)) k = None"
    and "filter (\<lambda>c. call_key c = k) (calls (fire t s)) = filter (\<lambda>c. call_key c = k) (calls s)"
  using assms
  by (auto simp: fire_def timer_callback_absent split: option.splits)

lemma fold_fire_absent:
  "store_get (store s) k = None \<Longrightarrow>
     store_get (store (fold fire ts s)) k = None
     \<and> filter (\<lambda>c. call_key c = k) (calls (fold fire ts s)) = filter (\<lambda>c. call_key c = k) (calls s)"
  by (induction ts arbitrary: s) (simp_all add: fire_absent)

lemma store_get_empty: "live ps = [] \<Longrightarrow> store_get ps k = None"
  by (simp add: store_get_map_of)

lemma fire_empty:
  assumes "live (store s) = []"
  shows "store (fire t s) = store s" and "calls (fire t s) = calls s"
  using assms
  by (auto simp: fire_def timer_callback_def store_get_empty split: option.splits)

lemma fold_fire_empty:
  "live (store s) = [] \<Longrightarrow> store (fold fire ts s) = store s \<and> calls (fold fire ts s) = calls s"
  by (induction ts arbitrary: s) (simp_all add: fire_empty)

lemma clear_fold:
  "store (fold (\<lambda>(k, entry) s'. case timeout entry of None \<Rightarrow> s' | Some t \<Rightarrow> clearTimeout t s') xs s) = store s
   \<and> calls (fold (\<lambda>(k, entry) s'. case timeout entry of None \<Rightarrow> s' | Some t \<Rightarrow> clearTimeout t s') xs s) = calls s
   \<and> lazyEviction (fold (\<lambda>(k, entry) s'. case timeout entry of None \<Rightarrow> s' | Some t \<Rightarrow> clearTimeout t s') xs s) = lazyEviction s
   \<and> timers (fold (\<lambda>(k, entry) s'. case timeout entry of None \<Rightarrow> s' | Some t \<Rightarrow> clearTimeout t s') xs s)
       = filter (\<lambda>x. \<forall>(k, e) \<in> set xs. timeout e \<noteq> Some (tid x)) (timers s)"
proof (induction xs arbitrary: s)
  case Nil
  show ?case by simp
next
  case (Cons p xs)
  obtain k e where p: "p = (k, e)" by (cases p)
  show ?case
    by (cases "timeout e") (auto simp: p Cons.IH clearTimeout_def intro!: filter_cong)
qed

lemma clear_fields:
  "store (clear s) = store_clear (store s)"
  "calls (clear s) = calls s"
  "lazyEviction (clear s) = lazyEviction s"
  "timers (clear s) = filter (\<lambda>x. \<forall>(k, e) \<in> set (live (store s)). timeout e \<noteq> Some (tid x)) (timers s)"
  by (simp_all add: clear_def Let_def clear_fold)

lemma set_live: "set (live ps) = {p. Some p \<in> set ps}"
  by (induction ps rule: live.induct) auto

lemma sweep_empty: "live (store s) = [] \<Longrightarrow> sweep i s = s"
proof (induction i s rule: sweep.induct)
  case (1 i s)
  show ?case
  proof (cases "i < length (store s)")
    case False
    then show ?thesis by (simp add: sweep.simps[of i s])
  next
    case True
    have "store s ! i = None"
    proof (cases "store s ! i")
      case (Some p)
      with True have "Some p \<in> set (store s)" by (metis nth_mem)
      then have "p \<in> set (live (store s))"
        by (simp add: set_live)
      with "1.prems" show ?thesis by simp
    qed simp
    with True "1.IH"(1) "1.prems" show ?thesis by (simp add: sweep.simps[of i s])
  qed
qed


lemma has_fields [simp]:
  "clock (snd (has k s)) = clock s"
  "lazyEviction (snd (has k s)) = lazyEviction s"
  "onExpire (snd (has k s)) = onExpire s"
  "defaultTtlMs (snd (has k s)) = defaultTtlMs s"
  by (simp_all add: has_def call_onExpire_def split: option.splits)

lemma has_keys_distinct: "keys_distinct (store s) \<Longrightarrow> keys_distinct (store (snd (has k s)))"
  by (simp add: has_def keys_distinct_remove split: option.splits)

lemma has_removed_first:
  "keys_distinct (store s) \<Longrightarrow> removed_first s \<Longrightarrow> removed_first (snd (has k s))"
  by (auto simp: has_def removed_first_def call_onExpire_def store_get_remove_same split: option.splits)

lemma get_removed_first:
  "keys_distinct (store s) \<Longrightarrow> removed_first s \<Longrightarrow> removed_first (snd (get k s))"
  by (auto simp: get_def removed_first_def call_onExpire_def store_get_remove_same split: option.splits)

lemma has_absent_other:
  "store_get (store s) k = None \<Longrightarrow> store_get (store (snd (has k' s))) k = None"
  by (simp add: has_def store_get_remove_None split: option.splits)

lemma sweep_invariant:
  assumes "P s" and step: "\<And>k s. P s \<Longrightarrow> P (snd (has k s))"
  shows "P (sweep i s)"
  using assms(1)
proof (induction i s rule: sweep.induct)
  case (1 i s)
  show ?case
  proof (cases "i < length (store s)")
    case False
    with "1.prems" show ?thesis by (simp add: sweep.simps[of i s])
  next
    case True
    show ?thesis
    proof (cases "store s ! i")
      case None
      with True "1.IH"(1) "1.prems" show ?thesis by (simp add: sweep.simps[of i s])
    next
      case (Some p)
      obtain k e where p: "p = (k, e)" by (cases p)
      from "1.IH"(2)[OF True Some[unfolded p] refl step[OF "1.prems"]] True Some p
      show ?thesis by (simp add: sweep.simps[of i s])
    qed
  qed
qed

lemma scan_invariant:
  assumes "P s" and step: "\<And>k s. P s \<Longrightarrow> P (snd (has k s))"
  shows "P (snd (snd (scan i s)))"
  using assms(1)
proof (induction i s rule: scan.induct)
  case (1 i s)
  show ?case
  proof (cases "i < length (store s)")
    case False
    with "1.prems" show ?thesis by (simp add: scan.simps[of i s])
  next
    case True
    show ?thesis
    proof (cases "store s ! i")
      case None
      with True "1.IH"(1) "1.prems" show ?thesis by (simp add: scan.simps[of i s])
    next
      case (Some p)
      obtain k e where p: "p = (k, e)" by (cases p)
      show ?thesis
      proof (cases "fst (has k s)")
        case yes: True
        with True Some p step[OF "1.prems", of k] show ?thesis
          by (simp add: scan.simps[of i s])
      next
        case no: False
        from "1.IH"(2)[OF True Some[unfolded p] refl no step[OF "1.prems"]] True Some p no
        show ?thesis by (simp add: scan.simps[of i s])
      qed
    qed
  qed
qed

lemma next_of_state: "snd (snd (next_of f it s)) = (case it of Done \<Rightarrow> s | At i \<Rightarrow> snd (snd (scan i s)))"
  by (simp add: next_of_def split: iter.splits prod.splits)


lemma has_absent: "store_get (store s) k = None \<Longrightarrow> has k s = (False, s)"
  by (simp add: has_def)

lemma size_op_invariant:
  assumes "P s" and step: "\<And>k s. P s \<Longrightarrow> P (snd (has k s))"
  shows "P (snd (size_op s))"
  using sweep_invariant[of P s 0, OF assms] assms(1) by (simp add: size_op_def Let_def)

lemma size_op_absent:
  assumes "store_get (store s) k = None"
  shows "k \<notin> fst ` set (live (store (snd (size_op s))))"
proof -
  have "store_get (store (snd (size_op s))) k = None"
    using assms by (rule size_op_invariant) (rule has_absent_other)
  then show ?thesis by (simp add: store_get_None_iff)
qed

lemma size_op_counts_live: "fst (size_op s) = length (live (store (snd (size_op s))))"
  by (simp add: size_op_def store_size_def Let_def)

lemma store_get_at_slot:
  assumes "keys_distinct ps" and "i < length ps" and "ps ! i = Some (k, e)"
  shows "store_get ps k = Some e"
proof -
  from assms(2,3) have "Some (k, e) \<in> set ps" by (metis nth_mem)
  then have "(k, e) \<in> set (live ps)" by (simp add: set_live)
  with assms(1) show ?thesis
    by (simp add: store_get_map_of keys_distinct_def)
qed

lemma store_remove_at_slot:
  "keys_distinct ps \<Longrightarrow> i < length ps \<Longrightarrow> ps ! i = Some (k, e) \<Longrightarrow> store_remove k ps = ps[i := None]"
proof (induction k ps arbitrary: i rule: store_remove.induct)
  case (1 k)
  then show ?case by simp
next
  case (2 k ps)
  then show ?case by (cases i) (auto simp: keys_distinct_def)
next
  case (3 k k' e' ps)
  show ?case
  proof (cases i)
    case 0
    with 3 show ?thesis by simp
  next
    case (Suc j)
    with "3.prems" have j: "j < length ps" "ps ! j = Some (k, e)" by simp_all
    then have "Some (k, e) \<in> set ps" by (metis nth_mem)
    then have "(k, e) \<in> set (live ps)" by (simp add: set_live)
    then have "k \<in> fst ` set (live ps)" by force
    with "3.prems"(1) have ne: "k' \<noteq> k" by (auto simp: keys_distinct_def)
    from "3.prems"(1) have "keys_distinct ps" by (simp add: keys_distinct_def)
    from "3.IH"[OF ne this j] ne Suc show ?thesis by simp
  qed
qed

lemma has_at_slot:
  assumes "keys_distinct (store s)" and "i < length (store s)" and "store s ! i = Some (k, e)"
  shows "fst (has k s) = passes s e"
    and "passes s e \<Longrightarrow> snd (has k s) = s"
    and "store (snd (has k s)) = (if passes s e then store s else (store s)[i := None])"
    and "notified (snd (has k s)) = notified s @ (if passes s e \<or> \<not> onExpire s then [] else [(k, val e)])"
  using store_get_at_slot[OF assms] store_remove_at_slot[OF assms]
  by (auto simp: has_def passes_def isExpired_def call_onExpire_def notified_def)

lemma sweep_result:
  assumes "keys_distinct (store s)"
  shows "store (sweep i s) = take i (store s) @ map (evict s) (drop i (store s))
       \<and> notified (sweep i s) =
           notified s @ (if onExpire s
                         then map (\<lambda>(k, e). (k, val e)) (filter (\<lambda>(k, e). \<not> passes s e) (live (drop i (store s))))
                         else [])"
  using assms
proof (induction i s rule: sweep.induct)
  case (1 i s)
  show ?case
  proof (cases "i < length (store s)")
    case False
    then show ?thesis by (simp add: sweep.simps[of i s])
  next
    case True
    note dr = Cons_nth_drop_Suc[OF True, symmetric]
    note tk = take_Suc_conv_app_nth[OF True]
    have tk': "take (Suc i) ((store s)[i := x]) = take i (store s) @ [x]" for x
      using True by (simp add: take_Suc_conv_app_nth)
    show ?thesis
    proof (cases "store s ! i")
      case None
      from "1.IH"(1)[OF True None "1.prems"] True None
      show ?thesis
        by (simp add: sweep.simps[of i s] dr tk evict_def)
    next
      case (Some p)
      obtain k e where p: "p = (k, e)" by (cases p)
      note slot = Some[unfolded p]
      note h = has_at_slot[OF "1.prems" True slot]
      let ?s1 = "snd (has k s)"
      have kd: "keys_distinct (store ?s1)" using "1.prems" by (rule has_keys_distinct)
      have same_passes: "passes ?s1 = passes s"
        by (simp add: passes_def fun_eq_iff)
      have same: "passes ?s1 = passes s" "evict ?s1 = evict s" "onExpire ?s1 = onExpire s"
        by (auto simp add: same_passes evict_def fun_eq_iff split: option.splits)
      note IH = "1.IH"(2)[OF True slot refl kd, unfolded same]
      show ?thesis
      proof (cases "passes s e")
        case True
        with IH h(2) show ?thesis
          using \<open>i < length (store s)\<close> slot
          by (simp add: sweep.simps[of i s] dr tk evict_def)
      next
        case False
        with IH h(3,4) show ?thesis
          using \<open>i < length (store s)\<close> slot
          by (simp add: sweep.simps[of i s] dr tk' evict_def)
      qed
    qed
  qed
qed


lemma live_map_evict: "live (map (evict s) ps) = filter (\<lambda>(k, e). passes s e) (live ps)"
  by (induction ps rule: live.induct) (auto simp: evict_def)

lemmas gen_defs = entries_next_def keys_next_def values_next_def next_of_def entries_def keys_def
  values_gen_def passes_def

lemma evict_simps [simp]:
  "evict s None = None"
  "evict s (Some (k, e)) = (if passes s e then Some (k, e) else None)"
  by (simp_all add: evict_def)

lemma live_append: "live (xs @ ys) = live xs @ live ys"
  by (induction xs rule: live.induct) auto

lemma scan_fields:
  "clock (snd (snd (scan i s))) = clock s \<and> lazyEviction (snd (snd (scan i s))) = lazyEviction s
   \<and> onExpire (snd (snd (scan i s))) = onExpire s"
  by (rule scan_invariant[where P = "\<lambda>s'. clock s' = clock s \<and> lazyEviction s' = lazyEviction s \<and> onExpire s' = onExpire s"])
     simp_all

lemma scan_keys_distinct: "keys_distinct (store s) \<Longrightarrow> keys_distinct (store (snd (snd (scan i s))))"
  by (rule scan_invariant[where P = "\<lambda>s'. keys_distinct (store s')"]) (simp_all add: has_keys_distinct)

lemma scan_split:
  assumes "keys_distinct (store s)" and "store s = pre @ xs"
  shows "fst (scan (length pre) s) = (case dropWhile (\<lambda>p. evict s p = None) xs of [] \<Rightarrow> None | p # _ \<Rightarrow> p)
       \<and> fst (snd (scan (length pre) s)) =
           (case dropWhile (\<lambda>p. evict s p = None) xs of
              [] \<Rightarrow> Done
            | _ # _ \<Rightarrow> At (Suc (length pre + length (takeWhile (\<lambda>p. evict s p = None) xs))))
       \<and> store (snd (snd (scan (length pre) s))) =
           pre @ map (\<lambda>_. None) (takeWhile (\<lambda>p. evict s p = None) xs)
               @ dropWhile (\<lambda>p. evict s p = None) xs
       \<and> notified (snd (snd (scan (length pre) s))) =
           notified s @ (if onExpire s
                         then map (\<lambda>(k, e). (k, val e)) (live (takeWhile (\<lambda>p. evict s p = None) xs))
                         else [])"
  using assms
proof (induction xs arbitrary: pre s)
  case Nil
  then show ?case by (simp add: scan.simps[of "length pre" s])
next
  case (Cons p xs)
  let ?i = "length pre"
  from Cons.prems(2) have lt: "?i < length (store s)" and at: "store s ! ?i = p"
    by simp_all
  show ?case
  proof (cases p)
    case None
    from Cons.prems(2) None have "store s = (pre @ [None]) @ xs" by simp
    from Cons.IH[OF Cons.prems(1) this] lt at None
    show ?thesis by (simp add: scan.simps[of "length pre" s] cong: list.case_cong)
  next
    case (Some x)
    obtain k e where x: "x = (k, e)" by (cases x)
    note slot = at[unfolded Some x]
    note h = has_at_slot[OF Cons.prems(1) lt slot]
    show ?thesis
    proof (cases "passes s e")
      case True
      with h(1,2) lt slot Some x Cons.prems(2) show ?thesis
        by (simp add: scan.simps[of "length pre" s])
    next
      case False
      let ?s1 = "snd (has k s)"
      have kd: "keys_distinct (store ?s1)" using Cons.prems(1) by (rule has_keys_distinct)
      have st: "store ?s1 = (pre @ [None]) @ xs"
        using h(3) False Cons.prems(2) by simp
      have same_passes: "passes ?s1 = passes s"
        by (simp add: passes_def fun_eq_iff)
      have same: "evict ?s1 = evict s" "onExpire ?s1 = onExpire s"
        by (auto simp add: same_passes evict_def fun_eq_iff split: option.splits)
      from Cons.IH[OF kd st, unfolded same] h(1,4) False lt slot Some x
      show ?thesis
        by (simp add: scan.simps[of "length pre" s] cong: list.case_cong)
    qed
  qed
qed


lemma skipped_filter:
  "\<forall>p \<in> set xs. evict s p = None \<Longrightarrow> filter (\<lambda>(k, e). passes s e) (live xs) = []"
  by (induction xs rule: live.induct) (auto split: if_splits)

lemma collect_result:
  "keys_distinct (store s) \<Longrightarrow> store s = pre @ xs \<Longrightarrow>
     fst (collect (At (length pre)) s) = filter (\<lambda>(k, e). passes s e) (live xs)"
proof (induction "length xs" arbitrary: xs pre s rule: less_induct)
  case less
  let ?P = "\<lambda>p. evict s p = None"
  let ?T = "takeWhile ?P xs"
  let ?D = "dropWhile ?P xs"
  obtain r it' s' where sc: "scan (length pre) s = (r, it', s')"
    by (cases "scan (length pre) s")
  note split = scan_split[OF less.prems, unfolded sc, simplified]
  show ?case
  proof (cases ?D)
    case Nil
    then have "\<forall>p \<in> set xs. ?P p" by simp
    then have "filter (\<lambda>(k, e). passes s e) (live xs) = []" by (rule skipped_filter)
    moreover from split Nil have "r = None" by simp
    ultimately show ?thesis
      by (simp add: collect.simps[of "At (length pre)" s] sc)
  next
    case (Cons p rest)
    then have xs: "xs = ?T @ p # rest" and np: "\<not> ?P p"
      by (simp_all add: dropWhile_eq_Cons_conv)
    from np obtain k e where p: "p = Some (k, e)" and pass: "passes s e"
      by (cases p) (auto split: if_splits)
    from split Cons have r: "r = p" and it': "it' = At (Suc (length pre + length ?T))"
      and st: "store s' = pre @ map (\<lambda>_. None) ?T @ p # rest"
      by simp_all
    have kd: "keys_distinct (store s')"
      using scan_keys_distinct[OF less.prems(1), of "length pre"] sc by simp
    have same: "passes s' = passes s"
      using scan_fields[of "length pre" s] sc by (simp add: passes_def fun_eq_iff)
    have len: "length rest < length xs"
      using arg_cong[where f = length, OF xs] by simp
    have st': "store s' = (pre @ map (\<lambda>_. None) ?T @ [p]) @ rest"
      using st by simp
    from less.hyps[OF len kd st']
    have IH: "fst (collect it' s') = filter (\<lambda>(k, e). passes s e) (live rest)"
      by (simp add: it' same)
    have "\<forall>q \<in> set ?T. ?P q" by (auto dest: set_takeWhileD)
    then have skip: "filter (\<lambda>(k, e). passes s e) (live ?T) = []" by (rule skipped_filter)
    have "live xs = live ?T @ (k, e) # live rest"
      using arg_cong[where f = live, OF xs] by (simp add: live_append p)
    then have "filter (\<lambda>(k, e). passes s e) (live xs) = (k, e) # filter (\<lambda>(k, e). passes s e) (live rest)"
      by (simp add: skip pass)
    with IH show ?thesis
      by (auto simp add: collect.simps[of "At (length pre)" s] sc r p split: prod.splits)
  qed
qed


lemma scan_step:
  assumes kd: "keys_distinct (store s)" and le: "i \<le> length (store s)"
    and sc: "scan i s = (r, it', s')"
  shows "case r of
           None \<Rightarrow>
             it' = Done \<and> (\<forall>p \<in> set (drop i (store s)). evict s p = None)
             \<and> store s' = take i (store s) @ map (\<lambda>_. None) (drop i (store s))
         | Some (k, e) \<Rightarrow>
             (\<exists>skipped rest.
                drop i (store s) = skipped @ Some (k, e) # rest
                \<and> (\<forall>p \<in> set skipped. evict s p = None)
                \<and> it' = At (Suc (i + length skipped))
                \<and> store s' = take i (store s) @ map (\<lambda>_. None) skipped @ Some (k, e) # rest
                \<and> passes s e
                \<and> has k s' = (True, s') \<and> get k s' = (Some (val e), s'))"
proof -
  let ?pre = "take i (store s)"
  let ?xs = "drop i (store s)"
  let ?P = "\<lambda>p. evict s p = None"
  let ?T = "takeWhile ?P ?xs"
  let ?D = "dropWhile ?P ?xs"
  have len: "length ?pre = i" using le by simp
  have "store s = ?pre @ ?xs" by simp
  note split = scan_split[OF kd this, unfolded len sc, simplified]
  show ?thesis
  proof (cases ?D)
    case Nil
    then have all: "\<forall>p \<in> set ?xs. ?P p" by simp
    then have T: "?T = ?xs" by (simp add: takeWhile_eq_all_conv)
    from split Nil all show ?thesis by (simp add: T)
  next
    case (Cons p rest)
    then have xs: "?xs = ?T @ p # rest" and np: "\<not> ?P p"
      by (simp_all add: dropWhile_eq_Cons_conv)
    from np obtain k e where p: "p = Some (k, e)" and pass: "passes s e"
      by (cases p) (auto split: if_splits)
    from split Cons have r: "r = Some (k, e)" and it': "it' = At (Suc (i + length ?T))"
      and st: "store s' = ?pre @ map (\<lambda>_. None) ?T @ Some (k, e) # rest"
      by (simp_all add: p)
    have skipped: "\<forall>q \<in> set ?T. ?P q" by (auto dest: set_takeWhileD)
    have kd': "keys_distinct (store s')"
      using scan_keys_distinct[OF kd, of i] sc by simp
    have same: "passes s' e = passes s e"
      using scan_fields[of i s] sc by (simp add: passes_def)
    have at: "store s' ! (i + length ?T) = Some (k, e)"
      using len by (simp add: st nth_append)
    have lt: "i + length ?T < length (store s')"
      using len by (simp add: st)
    from has_at_slot(1,2)[OF kd' lt at] same pass
    have h: "has k s' = (True, s')" by (simp add: prod_eq_iff)
    have g: "get k s' = (Some (val e), s')"
      using store_get_at_slot[OF kd' lt at] same pass
      by (simp add: get_def passes_def isExpired_def)
    show ?thesis
      unfolding r using xs[unfolded p] skipped it' st pass h g by auto
  qed
qed


section \<open>The store keeps its keys distinct\<close>

lemma new_keys_distinct:
  "new_ExpiringMap opts now = Inr s \<Longrightarrow> keys_distinct (store s) \<and> removed_first s"
  by (auto simp: new_ExpiringMap_def keys_distinct_def removed_first_def split: if_splits)

lemma timer_callback_keys_distinct:
  "keys_distinct (store s) \<Longrightarrow> keys_distinct (store (timer_callback k s))"
  by (simp add: timer_callback_def store_delete_def keys_distinct_remove split: option.splits)

lemma fire_keys_distinct: "keys_distinct (store s) \<Longrightarrow> keys_distinct (store (fire t s))"
  by (simp add: fire_def timer_callback_keys_distinct split: option.splits)

lemma fold_fire_keys_distinct: "keys_distinct (store s) \<Longrightarrow> keys_distinct (store (fold fire ts s))"
  by (induction ts arbitrary: s) (simp_all add: fire_keys_distinct)

lemma keys_distinct_preserved:
  assumes "keys_distinct (store s)"
  shows "keys_distinct (store (set_op k v ttlMs s))"
    and "keys_distinct (store (snd (delete k s)))"
    and "keys_distinct (store (clear s))"
    and "keys_distinct (store (snd (get k s)))"
    and "keys_distinct (store (snd (has k s)))"
    and "keys_distinct (store (snd (size_op s)))"
    and "keys_distinct (store (snd (snd (keys_next it s))))"
    and "keys_distinct (store (snd (snd (values_next it s))))"
    and "keys_distinct (store (snd (snd (entries_next it s))))"
    and "keys_distinct (store (elapse d s))"
    and "keys_distinct (store (fire t s))"
    and "keys_distinct (store (wait d s))"
proof -
  show "keys_distinct (store (set_op k v ttlMs s))"
    using assms
    by (simp add: set_op_def setTimeout_def Let_def keys_distinct_set keys_distinct_remove)
  show "keys_distinct (store (snd (delete k s)))"
    using assms by (simp add: keys_distinct_remove)
  show "keys_distinct (store (clear s))"
    by (simp add: clear_fields keys_distinct_def)
  show "keys_distinct (store (snd (get k s)))"
    using assms by (simp add: get_def keys_distinct_remove split: option.splits)
  show "keys_distinct (store (snd (has k s)))"
    using assms by (rule has_keys_distinct)
  show "keys_distinct (store (snd (size_op s)))"
    using assms by (rule size_op_invariant) (rule has_keys_distinct)
  have sc: "keys_distinct (store (case it of Done \<Rightarrow> s | At i \<Rightarrow> snd (snd (scan i s))))"
    using assms by (simp add: scan_keys_distinct split: iter.splits)
  show "keys_distinct (store (snd (snd (keys_next it s))))"
    using sc by (simp add: keys_next_def next_of_state)
  show "keys_distinct (store (snd (snd (values_next it s))))"
    using sc by (simp add: values_next_def next_of_state)
  show "keys_distinct (store (snd (snd (entries_next it s))))"
    using sc by (simp add: entries_next_def next_of_state)
  show "keys_distinct (store (elapse d s))"
    using assms by simp
  show "keys_distinct (store (fire t s))"
    using assms by (rule fire_keys_distinct)
  show "keys_distinct (store (wait d s))"
    using assms by (simp add: wait_def run_timers_def fold_fire_keys_distinct)
qed

section \<open>Construction, and the errors of the public operations\<close>





section \<open>Reading: get and has\<close>

text \<open>
  C3. Under lazy eviction, \<^verbatim>\<open>get(k)\<close> and \<^verbatim>\<open>has(k)\<close> on a key that is stored
  first test \<open>now \<ge> expiresAt\<close>. If it holds, both remove the entry (the other
  keys keep theirs), call \<^verbatim>\<open>onExpire(k, value)\<close> once when a callback was given, and
  return absent/false, and a second access finds nothing and calls nothing; if not, they
  return the stored value / true and change nothing. On a key that is not stored they
  return absent/false and change nothing.
\<close>

theorem lazy_get_has:
  assumes "lazyEviction s" and "keys_distinct (store s)"
  shows "case store_get (store s) k of
           None \<Rightarrow> get k s = (None, s) \<and> has k s = (False, s)
         | Some e \<Rightarrow>
             if clock s \<ge> expiresAt e
             then fst (get k s) = None \<and> fst (has k s) = False
                    \<and> snd (has k s) = snd (get k s)
                    \<and> store_get (store (snd (get k s))) k = None
                    \<and> (\<forall>k'. k' \<noteq> k \<longrightarrow>
                          store_get (store (snd (get k s))) k' = store_get (store s) k')
                    \<and> notified (snd (get k s)) =
                          notified s @ (if onExpire s then [(k, val e)] else [])
                    \<and> get k (snd (get k s)) = (None, snd (get k s))
                    \<and> has k (snd (get k s)) = (False, snd (get k s))
             else get k s = (Some (val e), s) \<and> has k s = (True, s)"
  using assms
  by (auto simp: get_def has_def isExpired_def call_onExpire_def store_get_remove_same notified_def
           split: option.splits)

theorem lazy_get_has_witness:
  "lazyEviction (elapse 70 (set_op ''a'' 1 None lazy_map))
   \<and> keys_distinct (store (elapse 70 (set_op ''a'' 1 None lazy_map)))
   \<and> store_get (store (elapse 70 (set_op ''a'' 1 None lazy_map))) ''a''
        = Some \<lparr>val = 1, expiresAt = 50, timeout = None\<rparr>
   \<and> fst (get ''a'' (elapse 70 (set_op ''a'' 1 None lazy_map))) = None
   \<and> fst (has ''a'' (elapse 70 (set_op ''a'' 1 None lazy_map))) = False
   \<and> notified (snd (get ''a'' (elapse 70 (set_op ''a'' 1 None lazy_map)))) = [(''a'', 1)]
   \<and> get ''a'' (elapse 20 (set_op ''a'' 1 None lazy_map))
        = (Some 1, elapse 20 (set_op ''a'' 1 None lazy_map))"
  using lazy_get_has[where s = "elapse 70 (set_op ''a'' 1 None lazy_map)" and k = "''a''"]
        lazy_get_has[where s = "elapse 20 (set_op ''a'' 1 None lazy_map)" and k = "''a''"]
  by (simp add: eval_defs)






section \<open>Writing: set\<close>

text \<open>
  C9. \<^verbatim>\<open>set\<close> does not check its \<^verbatim>\<open>ttlMs\<close>: for every integer, zero and negative
  ones too, it stores an entry that expires at \<open>now + ttlMs\<close> (it is a total function:
  nothing is raised). Under lazy eviction an entry stored with \<open>ttlMs \<le> 0\<close> is expired
  from the start: the next \<^verbatim>\<open>get\<close> or \<^verbatim>\<open>has\<close>, however soon, reports it absent and
  calls \<^verbatim>\<open>onExpire(k, v)\<close> when a callback was given.
\<close>

theorem set_accepts_any_ttl:
  fixes s :: "('k, 'v, int) state" and d :: nat
  shows "store_get (store (set_op k v (Some t) s)) k =
     Some \<lparr>val = v, expiresAt = clock s + t,
           timeout = (if lazyEviction s then None else Some (nextTimer s))\<rparr>
   \<and> (lazyEviction s \<and> t \<le> 0 \<longrightarrow>
        fst (get k (elapse (int d) (set_op k v (Some t) s))) = None
        \<and> fst (has k (elapse (int d) (set_op k v (Some t) s))) = False
        \<and> notified (snd (get k (elapse (int d) (set_op k v (Some t) s)))) =
             notified s @ (if onExpire s then [(k, v)] else [])
        \<and> notified (snd (has k (elapse (int d) (set_op k v (Some t) s)))) =
             notified s @ (if onExpire s then [(k, v)] else []))"
proof -
  let ?s1 = "elapse (int d) (set_op k v (Some t) s)"
  have g: "store_get (store ?s1) k =
     Some \<lparr>val = v, expiresAt = clock s + t,
           timeout = (if lazyEviction s then None else Some (nextTimer s))\<rparr>"
    by (simp add: set_op_stores)
  have "lazyEviction s \<and> t \<le> 0 \<longrightarrow>
        fst (get k ?s1) = None \<and> fst (has k ?s1) = False
        \<and> notified (snd (get k ?s1)) = notified s @ (if onExpire s then [(k, v)] else [])
        \<and> notified (snd (has k ?s1)) = notified s @ (if onExpire s then [(k, v)] else [])"
    using g
    by (auto simp: get_def has_def isExpired_def call_onExpire_def notified_def)
  with g show ?thesis by simp
qed

theorem set_accepts_any_ttl_witness:
  "store_get (store (set_op ''a'' 1 (Some (- 5)) lazy_map)) ''a''
     = Some \<lparr>val = 1, expiresAt = - 5, timeout = None\<rparr>
   \<and> fst (get ''a'' (elapse 0 (set_op ''a'' 1 (Some (- 5)) lazy_map))) = None
   \<and> fst (has ''a'' (elapse 0 (set_op ''a'' 1 (Some (- 5)) lazy_map))) = False
   \<and> notified (snd (get ''a'' (elapse 0 (set_op ''a'' 1 (Some (- 5)) lazy_map)))) = [(''a'', 1)]
   \<and> notified (snd (has ''a'' (elapse 0 (set_op ''a'' 1 (Some (- 5)) lazy_map)))) = [(''a'', 1)]"
  using set_accepts_any_ttl[where s = lazy_map and k = "''a''" and v = 1 and t = "- 5" and d = 0]
  by (simp add: lazy_map_def notified_def)


section \<open>Removing: delete and clear\<close>

text \<open>
  C7. \<^verbatim>\<open>delete(k)\<close> returns true exactly when \<open>k\<close> was stored; afterwards \<open>k\<close> is
  not stored and the other keys are as before; the timer handle held by the deleted entry
  is no longer pending; \<^verbatim>\<open>delete\<close> itself does not call \<^verbatim>\<open>onExpire\<close>, and however
  much time passes and whichever timers the host runs afterwards, \<^verbatim>\<open>onExpire\<close> is not
  called for \<open>k\<close>.
\<close>

theorem delete_removes_and_cancels:
  assumes "keys_distinct (store s)"
  shows "fst (delete k s) = (store_get (store s) k \<noteq> None)
       \<and> store_get (store (snd (delete k s))) k = None
       \<and> (\<forall>k'. k' \<noteq> k \<longrightarrow> store_get (store (snd (delete k s))) k' = store_get (store s) k')
       \<and> (\<forall>e t. store_get (store s) k = Some e \<and> timeout e = Some t \<longrightarrow>
              t \<notin> tid ` set (timers (snd (delete k s))))
       \<and> calls (snd (delete k s)) = calls s
       \<and> (\<forall>d ts. filter (\<lambda>c. call_key c = k) (calls (fold fire ts (elapse d (snd (delete k s)))))
                  = filter (\<lambda>c. call_key c = k) (calls s))
       \<and> (\<forall>d. filter (\<lambda>c. call_key c = k) (calls (wait d (snd (delete k s))))
                  = filter (\<lambda>c. call_key c = k) (calls s))"
proof -
  let ?s1 = "snd (delete k s)"
  have absent: "store_get (store ?s1) k = None"
    using assms by (simp add: store_get_remove_same)
  have later: "filter (\<lambda>c. call_key c = k) (calls (fold fire ts (elapse d ?s1)))
                  = filter (\<lambda>c. call_key c = k) (calls s)" for d ts
    using fold_fire_absent[of "elapse d ?s1" k ts] absent by simp
  have "filter (\<lambda>c. call_key c = k) (calls (wait d ?s1)) = filter (\<lambda>c. call_key c = k) (calls s)" for d
    unfolding wait_def run_timers_def by (rule later)
  moreover have "\<forall>e t. store_get (store s) k = Some e \<and> timeout e = Some t \<longrightarrow>
              t \<notin> tid ` set (timers ?s1)"
    by (auto simp: delete_timers)
  ultimately show ?thesis
    using absent later by (simp add: delete_result)
qed


theorem delete_removes_and_cancels_witness:
  "keys_distinct (store (elapse 10 (set_op ''a'' 1 None eager_map)))
   \<and> timers (elapse 10 (set_op ''a'' 1 None eager_map)) = [\<lparr>tid = 1, tkey = ''a'', due = 50\<rparr>]
   \<and> fst (delete ''a'' (elapse 10 (set_op ''a'' 1 None eager_map))) = True
   \<and> store_get (store (snd (delete ''a'' (elapse 10 (set_op ''a'' 1 None eager_map))))) ''a'' = None
   \<and> timers (snd (delete ''a'' (elapse 10 (set_op ''a'' 1 None eager_map)))) = []
   \<and> calls (wait 100 (snd (delete ''a'' (elapse 10 (set_op ''a'' 1 None eager_map))))) = []
   \<and> fst (delete ''a'' (snd (delete ''a'' (elapse 10 (set_op ''a'' 1 None eager_map))))) = False"
  using delete_removes_and_cancels[where s = "elapse 10 (set_op ''a'' 1 None eager_map)" and k = "''a''"]
        delete_removes_and_cancels[where s = "snd (delete ''a'' (elapse 10 (set_op ''a'' 1 None eager_map)))" and k = "''a''"]
  by (simp add: eval_defs host_defs)

text \<open>
  C6. \<^verbatim>\<open>clear()\<close> leaves no entry: \<^verbatim>\<open>size\<close> is 0 right away and \<^verbatim>\<open>has\<close> is false
  for every key. The timer handle of every entry that was stored is no longer pending.
  \<^verbatim>\<open>clear\<close> does not call \<^verbatim>\<open>onExpire\<close>, and however much time passes and whichever
  timers the host runs afterwards, \<^verbatim>\<open>onExpire\<close> is not called.
\<close>

theorem clear_cancels_and_empties:
  "live (store (clear s)) = []
   \<and> size_op (clear s) = (0, clear s)
   \<and> (\<forall>k. has k (clear s) = (False, clear s))
   \<and> (\<forall>(k, e) \<in> set (live (store s)). \<forall>t. timeout e = Some t \<longrightarrow> t \<notin> tid ` set (timers (clear s)))
   \<and> calls (clear s) = calls s
   \<and> (\<forall>d ts. calls (fold fire ts (elapse d (clear s))) = calls s)
   \<and> (\<forall>d. calls (wait d (clear s)) = calls s)"
proof -
  have empty: "live (store (clear s)) = []"
    by (simp add: clear_fields)
  have size0: "size_op (clear s) = (0, clear s)"
    using empty by (simp add: size_op_def sweep_empty store_size_def)
  have absent: "has k (clear s) = (False, clear s)" for k
    using empty by (simp add: has_def store_get_empty)
  have cancelled: "\<forall>(k, e) \<in> set (live (store s)). \<forall>t. timeout e = Some t \<longrightarrow> t \<notin> tid ` set (timers (clear s))"
    by (auto simp: clear_fields)
  have later: "calls (fold fire ts (elapse d (clear s))) = calls s" for d ts
    using fold_fire_empty[of "elapse d (clear s)" ts] empty by (simp add: clear_fields)
  have "calls (wait d (clear s)) = calls s" for d
    unfolding wait_def run_timers_def by (rule later)
  with empty size0 absent cancelled later show ?thesis
    by (simp add: clear_fields)
qed

theorem clear_cancels_and_empties_witness:
  "timers (set_op ''b'' 2 None (set_op ''a'' 1 None eager_map))
     = [\<lparr>tid = 1, tkey = ''a'', due = 50\<rparr>, \<lparr>tid = 2, tkey = ''b'', due = 50\<rparr>]
   \<and> timers (clear (set_op ''b'' 2 None (set_op ''a'' 1 None eager_map))) = []
   \<and> size_op (clear (set_op ''b'' 2 None (set_op ''a'' 1 None eager_map)))
       = (0, clear (set_op ''b'' 2 None (set_op ''a'' 1 None eager_map)))
   \<and> calls (wait 150 (clear (set_op ''b'' 2 None (set_op ''a'' 1 None eager_map)))) = []
   \<and> fst (has ''a'' (wait 150 (clear (set_op ''b'' 2 None (set_op ''a'' 1 None eager_map))))) = False
   \<and> notified (wait 150 (set_op ''b'' 2 None (set_op ''a'' 1 None eager_map))) = [(''a'', 1), (''b'', 2)]"
  using clear_cancels_and_empties[where s = "set_op ''b'' 2 None (set_op ''a'' 1 None eager_map)"]
  by (simp add: eval_defs host_defs clear_def store_clear_def)


section \<open>Lazy eviction removes before it notifies\<close>

text \<open>
  C10. Under lazy eviction, \<^verbatim>\<open>get\<close> and \<^verbatim>\<open>has\<close> on an expired entry remove it from
  the store before they call \<^verbatim>\<open>onExpire\<close>: the store the callback sees is the store
  without the key. The same holds of every call made through \<^verbatim>\<open>size\<close> and through a
  step of \<^verbatim>\<open>keys\<close>, \<^verbatim>\<open>values\<close> or \<^verbatim>\<open>entries\<close>. On such a store \<^verbatim>\<open>has\<close> of the
  key is false and \<^verbatim>\<open>size\<close> does not count the key.
\<close>

theorem lazy_expiry_removes_before_notifying:
  fixes s :: "('k, 'v, 'n::linorder) state"
  assumes "lazyEviction s" and "keys_distinct (store s)" and "removed_first s"
  shows "(\<forall>e. store_get (store s) k = Some e \<and> expiresAt e \<le> clock s \<and> onExpire s \<longrightarrow>
            calls (snd (get k s)) =
              calls s @ [\<lparr>call_key = k, call_value = val e, call_store = store_remove k (store s)\<rparr>]
            \<and> calls (snd (has k s)) =
              calls s @ [\<lparr>call_key = k, call_value = val e, call_store = store_remove k (store s)\<rparr>]
            \<and> store_get (store_remove k (store s)) k = None)
       \<and> removed_first (snd (get k s))
       \<and> removed_first (snd (has k s))
       \<and> removed_first (snd (size_op s))
       \<and> removed_first (snd (snd (keys_next it s)))
       \<and> removed_first (snd (snd (values_next it s)))
       \<and> removed_first (snd (snd (entries_next it s)))
       \<and> (\<forall>(c :: ('k, 'v, 'n::linorder) call) (s' :: ('k, 'v, 'n::linorder) state).
              store_get (call_store c) (call_key c) = None \<longrightarrow>
              has (call_key c) (s'\<lparr>store := call_store c\<rparr>) = (False, s'\<lparr>store := call_store c\<rparr>)
              \<and> call_key c \<notin> fst ` set (live (store (snd (size_op (s'\<lparr>store := call_store c\<rparr>)))))
              \<and> fst (size_op (s'\<lparr>store := call_store c\<rparr>))
                  = length (live (store (snd (size_op (s'\<lparr>store := call_store c\<rparr>))))))"
proof -
  let ?I = "\<lambda>s :: ('k, 'v, 'n::linorder) state. keys_distinct (store s) \<and> removed_first s"
  have step: "?I (snd (has k s))" if "?I s" for k and s :: "('k, 'v, 'n::linorder) state"
    using that by (simp add: has_keys_distinct has_removed_first)
  have I: "?I s" using assms by simp
  have explicit: "\<forall>e. store_get (store s) k = Some e \<and> expiresAt e \<le> clock s \<and> onExpire s \<longrightarrow>
            calls (snd (get k s)) =
              calls s @ [\<lparr>call_key = k, call_value = val e, call_store = store_remove k (store s)\<rparr>]
            \<and> calls (snd (has k s)) =
              calls s @ [\<lparr>call_key = k, call_value = val e, call_store = store_remove k (store s)\<rparr>]
            \<and> store_get (store_remove k (store s)) k = None"
    using assms(1,2)
    by (auto simp: get_def has_def isExpired_def call_onExpire_def store_get_remove_same)
  have g: "removed_first (snd (get k s))"
    using assms by (simp add: get_removed_first)
  have h: "removed_first (snd (has k s))"
    using assms by (simp add: has_removed_first)
  have size: "removed_first (snd (size_op s))"
    using size_op_invariant[of ?I s, OF I step] by simp
  have sc: "removed_first (case it of Done \<Rightarrow> s | At i \<Rightarrow> snd (snd (scan i s)))"
    using scan_invariant[of ?I s, OF I step] assms(3) by (simp split: iter.splits)
  have k1: "removed_first (snd (snd (keys_next it s)))"
    using sc by (simp add: keys_next_def next_of_state)
  have k2: "removed_first (snd (snd (values_next it s)))"
    using sc by (simp add: values_next_def next_of_state)
  have k3: "removed_first (snd (snd (entries_next it s)))"
    using sc by (simp add: entries_next_def next_of_state)
  have seen: "has (call_key c) (s'\<lparr>store := call_store c\<rparr>) = (False, s'\<lparr>store := call_store c\<rparr>)
              \<and> call_key c \<notin> fst ` set (live (store (snd (size_op (s'\<lparr>store := call_store c\<rparr>)))))
              \<and> fst (size_op (s'\<lparr>store := call_store c\<rparr>))
                  = length (live (store (snd (size_op (s'\<lparr>store := call_store c\<rparr>)))))"
    if "store_get (call_store c) (call_key c) = None"
    for c :: "('k, 'v, 'n::linorder) call" and s' :: "('k, 'v, 'n::linorder) state"
  proof -
    from that have a: "store_get (store (s'\<lparr>store := call_store c\<rparr>)) (call_key c) = None" by simp
    show ?thesis
      using has_absent[OF a] size_op_absent[OF a] size_op_counts_live[of "s'\<lparr>store := call_store c\<rparr>"]
      by blast
  qed
  from explicit g h size k1 k2 k3 seen show ?thesis by blast
qed


theorem lazy_expiry_removes_before_notifying_witness:
  "lazyEviction (elapse 70 (set_op ''b'' 2 None (set_op ''a'' 1 None lazy_map)))
   \<and> keys_distinct (store (elapse 70 (set_op ''b'' 2 None (set_op ''a'' 1 None lazy_map))))
   \<and> removed_first (elapse 70 (set_op ''b'' 2 None (set_op ''a'' 1 None lazy_map)))
   \<and> calls (snd (has ''a'' (elapse 70 (set_op ''b'' 2 None (set_op ''a'' 1 None lazy_map)))))
       = [\<lparr>call_key = ''a'', call_value = 1,
           call_store = [None, Some (''b'', \<lparr>val = 2, expiresAt = 50, timeout = None\<rparr>)]\<rparr>]
   \<and> calls (snd (size_op (elapse 70 (set_op ''b'' 2 None (set_op ''a'' 1 None lazy_map)))))
       = [\<lparr>call_key = ''a'', call_value = 1,
           call_store = [None, Some (''b'', \<lparr>val = 2, expiresAt = 50, timeout = None\<rparr>)]\<rparr>,
          \<lparr>call_key = ''b'', call_value = 2, call_store = [None, None]\<rparr>]
   \<and> removed_first (snd (size_op (elapse 70 (set_op ''b'' 2 None (set_op ''a'' 1 None lazy_map)))))
   \<and> fst (has ''a'' (lazy_map\<lparr>store := [None, Some (''b'', \<lparr>val = 2, expiresAt = 50, timeout = None\<rparr>)]\<rparr>))
       = False"
  using lazy_expiry_removes_before_notifying
          [where s = "elapse 70 (set_op ''b'' 2 None (set_op ''a'' 1 None lazy_map))"
             and k = "''a''" and it = "At 0"]
  by (simp add: eval_defs removed_first_def size_op_def sweep.simps)

section \<open>Re-insertion under eager eviction\<close>

text \<open>
  C1. An eager container, \<^verbatim>\<open>set("k", 1, 50)\<close> at time 0 and \<^verbatim>\<open>set("k", 2, 500)\<close> at
  time 10. The second \<^verbatim>\<open>set\<close> leaves the first timer pending beside its own: the eager
  branch of \<^verbatim>\<open>set\<close> does not call \<^verbatim>\<open>clearTimeout\<close>, where \<^verbatim>\<open>delete\<close> and
  \<^verbatim>\<open>clear\<close> do. Right after the second \<^verbatim>\<open>set\<close>, \<^verbatim>\<open>get("k")\<close> is 2. The first
  timer is due at time 50; once the host has run it, it has found an entry under the key,
  removed it and called \<^verbatim>\<open>onExpire("k", 2)\<close>: at time 60 \<^verbatim>\<open>has("k")\<close> is false and
  \<^verbatim>\<open>get("k")\<close> is absent, where the claim has true and 2.
\<close>

theorem stale_timer_evicts_new_entry:
  "timers (set_op ''k'' 2 (Some 500) (wait 10 (set_op ''k'' 1 (Some 50) eager_map)))
     = [\<lparr>tid = 1, tkey = ''k'', due = 50\<rparr>, \<lparr>tid = 2, tkey = ''k'', due = 510\<rparr>]
   \<and> get ''k'' (set_op ''k'' 2 (Some 500) (wait 10 (set_op ''k'' 1 (Some 50) eager_map)))
     = (Some 2, set_op ''k'' 2 (Some 500) (wait 10 (set_op ''k'' 1 (Some 50) eager_map)))
   \<and> clock (wait 50 (set_op ''k'' 2 (Some 500) (wait 10 (set_op ''k'' 1 (Some 50) eager_map)))) = 60
   \<and> fst (has ''k'' (wait 50 (set_op ''k'' 2 (Some 500) (wait 10 (set_op ''k'' 1 (Some 50) eager_map))))) = False
   \<and> fst (get ''k'' (wait 50 (set_op ''k'' 2 (Some 500) (wait 10 (set_op ''k'' 1 (Some 50) eager_map))))) = None
   \<and> notified (wait 50 (set_op ''k'' 2 (Some 500) (wait 10 (set_op ''k'' 1 (Some 50) eager_map)))) = [(''k'', 2)]"
  by (simp add: eval_defs host_defs)


section \<open>Counting: size\<close>

text \<open>
  C4. Under eager eviction \<^verbatim>\<open>size\<close> is the number of entries stored, with no look at
  the time and no change of state. Under lazy eviction it first empties every slot whose
  entry has expired, calling \<^verbatim>\<open>onExpire\<close> for each in the order of the slots when a
  callback was given, and leaves the others; the number returned is the number of stored
  entries that have not expired.
\<close>

theorem size_counts_unexpired:
  fixes s :: "('k, 'v, 'n::linorder) state"
  shows "(\<not> lazyEviction s \<longrightarrow> size_op s = (length (live (store s)), s))
   \<and> (lazyEviction s \<and> keys_distinct (store s) \<longrightarrow>
        store (snd (size_op s)) =
          map (\<lambda>p. case p of None \<Rightarrow> None
                   | Some (k, e) \<Rightarrow> if clock s < expiresAt e then Some (k, e) else None) (store s)
        \<and> live (store (snd (size_op s))) = filter (\<lambda>(k, e). clock s < expiresAt e) (live (store s))
        \<and> fst (size_op s) = length (filter (\<lambda>(k, e). clock s < expiresAt e) (live (store s)))
        \<and> notified (snd (size_op s)) =
            notified s @ (if onExpire s
                          then map (\<lambda>(k, e). (k, val e))
                                 (filter (\<lambda>(k, e). expiresAt e \<le> clock s) (live (store s)))
                          else []))"
proof (cases "lazyEviction s")
  case False
  then show ?thesis by (simp add: size_op_def store_size_def)
next
  case True
  have ev: "evict s = (\<lambda>p. case p of None \<Rightarrow> None
                   | Some (k, e) \<Rightarrow> if clock s < expiresAt e then Some (k, e) else None)"
    using True by (auto simp: evict_def passes_def fun_eq_iff split: option.splits)
  have ps: "(\<lambda>(k, e). passes s e) = (\<lambda>(k :: 'k, e :: ('v, 'n::linorder) entry). clock s < expiresAt e)"
       "(\<lambda>(k, e). \<not> passes s e) = (\<lambda>(k :: 'k, e :: ('v, 'n::linorder) entry). expiresAt e \<le> clock s)"
    using True by (auto simp: passes_def fun_eq_iff)
  show ?thesis
  proof (cases "keys_distinct (store s)")
    case False
    with True show ?thesis by simp
  next
    case kd: True
    from sweep_result[OF kd, of 0]
    have st: "store (sweep 0 s) = map (evict s) (store s)"
      and nt: "notified (sweep 0 s) =
           notified s @ (if onExpire s
                         then map (\<lambda>(k, e). (k, val e)) (filter (\<lambda>(k, e). \<not> passes s e) (live (store s)))
                         else [])"
      by simp_all
    have lv: "live (store (sweep 0 s)) = filter (\<lambda>(k, e). clock s < expiresAt e) (live (store s))"
      by (simp add: st live_map_evict ps)
    from True st nt lv show ?thesis
      by (simp add: size_op_def Let_def store_size_def ps flip: ev)
  qed
qed

theorem size_counts_unexpired_witness:
  "fst (size_op (set_op ''b'' 2 None (set_op ''a'' 1 None lazy_map))) = 2
   \<and> fst (size_op (elapse 70 (set_op ''b'' 2 None (set_op ''a'' 1 None lazy_map)))) = 0
   \<and> store (snd (size_op (elapse 70 (set_op ''b'' 2 None (set_op ''a'' 1 None lazy_map))))) = [None, None]
   \<and> notified (snd (size_op (elapse 70 (set_op ''b'' 2 None (set_op ''a'' 1 None lazy_map)))))
       = [(''a'', 1), (''b'', 2)]
   \<and> fst (size_op (elapse 70 (set_op ''b'' 2 (Some 100) (set_op ''a'' 1 None lazy_map)))) = 1
   \<and> size_op (elapse 70 (set_op ''b'' 2 None (set_op ''a'' 1 None eager_map)))
       = (2, elapse 70 (set_op ''b'' 2 None (set_op ''a'' 1 None eager_map)))"
  using size_counts_unexpired[where s = "set_op ''b'' 2 None (set_op ''a'' 1 None lazy_map)"]
        size_counts_unexpired[where s = "elapse 70 (set_op ''b'' 2 None (set_op ''a'' 1 None lazy_map))"]
        size_counts_unexpired[where s = "elapse 70 (set_op ''b'' 2 (Some 100) (set_op ''a'' 1 None lazy_map))"]
        size_counts_unexpired[where s = "elapse 70 (set_op ''b'' 2 None (set_op ''a'' 1 None eager_map))"]
  by (simp add: eval_defs)


section \<open>Iterating: keys, values, entries\<close>

text \<open>
  C2, as the spec states it, fails under eager eviction: there \<^verbatim>\<open>has\<close> makes no test
  of the time, so an entry whose \<open>expiresAt\<close> has passed and whose timer has not run yet
  is yielded. An eager container, \<^verbatim>\<open>set("a", 1, 50)\<close> at time 0, and 60 ms of running code
  (no timer runs inside running code): \<^verbatim>\<open>keys()\<close> yields \<open>a\<close>, and no stored entry has
  an \<open>expiresAt\<close> still to come. The same right after \<^verbatim>\<open>set("a", 1, 0)\<close>.
\<close>

theorem eager_iteration_counterexample:
  "\<not> lazyEviction (elapse 60 (set_op ''a'' 1 (Some 50) eager_map))
   \<and> clock (elapse 60 (set_op ''a'' 1 (Some 50) eager_map)) = 60
   \<and> live (store (elapse 60 (set_op ''a'' 1 (Some 50) eager_map)))
       = [(''a'', \<lparr>val = 1, expiresAt = 50, timeout = Some 1\<rparr>)]
   \<and> keys_next keys (elapse 60 (set_op ''a'' 1 (Some 50) eager_map))
       = (Some ''a'', At 1, elapse 60 (set_op ''a'' 1 (Some 50) eager_map))
   \<and> entries_next entries (elapse 60 (set_op ''a'' 1 (Some 50) eager_map))
       = (Some (''a'', 1), At 1, elapse 60 (set_op ''a'' 1 (Some 50) eager_map))
   \<and> map fst (fst (collect keys (elapse 60 (set_op ''a'' 1 (Some 50) eager_map)))) = [''a'']
   \<and> filter (\<lambda>(k, e). clock (elapse 60 (set_op ''a'' 1 (Some 50) eager_map)) < expiresAt e)
        (live (store (elapse 60 (set_op ''a'' 1 (Some 50) eager_map)))) = []
   \<and> fst (collect keys (elapse 60 (set_op ''a'' 1 (Some 50) eager_map)))
       \<noteq> filter (\<lambda>(k, e). clock (elapse 60 (set_op ''a'' 1 (Some 50) eager_map)) < expiresAt e)
           (live (store (elapse 60 (set_op ''a'' 1 (Some 50) eager_map))))
   \<and> isExpired (set_op ''a'' 1 (Some 0) eager_map) \<lparr>val = 1, expiresAt = 0, timeout = Some 1\<rparr>
   \<and> store_get (store (set_op ''a'' 1 (Some 0) eager_map)) ''a''
       = Some \<lparr>val = 1, expiresAt = 0, timeout = Some 1\<rparr>
   \<and> keys_next keys (set_op ''a'' 1 (Some 0) eager_map)
       = (Some ''a'', At 1, set_op ''a'' 1 (Some 0) eager_map)"
  by (simp add: eval_defs gen_defs scan.simps collect.simps)

text \<open>
  C2, amended. One step of \<^verbatim>\<open>entries()\<close> resumed at slot \<open>i\<close>, in the state of that
  moment: it walks the slots from \<open>i\<close> in their order (the insertion order), passes over
  the empty slots and over the entries that fail the test of \<^verbatim>\<open>has\<close> (emptying these),
  and yields the first entry that passes; this entry passes \<^verbatim>\<open>has\<close> and \<^verbatim>\<open>get\<close> in
  the state the step leaves; the generator is then suspended just after its slot. With no
  such entry the generator is done, and stays done. \<^verbatim>\<open>keys()\<close> and \<^verbatim>\<open>values()\<close> do
  the same and yield the key, the value. Under lazy eviction the entry yielded has not
  expired at that moment; run to its end at one moment, the generator yields exactly the
  stored entries that have not expired, in the order of the slots. Under eager eviction
  it yields exactly the stored entries, whatever their \<open>expiresAt\<close>.
\<close>

theorem generators_yield_checked_entries:
  assumes "keys_distinct (store s)" and "i \<le> length (store s)"
  shows "(case entries_next (At i) s of
            (None, it', s') \<Rightarrow>
              it' = Done \<and> (\<forall>p \<in> set (drop i (store s)). evict s p = None)
              \<and> store s' = take i (store s) @ map (\<lambda>_. None) (drop i (store s))
          | (Some (k, v), it', s') \<Rightarrow>
              (\<exists>e skipped rest.
                 v = val e
                 \<and> drop i (store s) = skipped @ Some (k, e) # rest
                 \<and> (\<forall>p \<in> set skipped. evict s p = None)
                 \<and> it' = At (Suc (i + length skipped))
                 \<and> store s' = take i (store s) @ map (\<lambda>_. None) skipped @ Some (k, e) # rest
                 \<and> (lazyEviction s \<longrightarrow> clock s < expiresAt e)
                 \<and> has k s' = (True, s') \<and> get k s' = (Some v, s')))
       \<and> keys_next (At i) s = (case entries_next (At i) s of (r, it', s') \<Rightarrow> (map_option fst r, it', s'))
       \<and> values_next (At i) s = (case entries_next (At i) s of (r, it', s') \<Rightarrow> (map_option snd r, it', s'))
       \<and> entries_next Done s = (None, Done, s)
       \<and> fst (collect (At i) s) = filter (\<lambda>(k, e). passes s e) (live (drop i (store s)))
       \<and> (lazyEviction s \<longrightarrow>
            fst (collect entries s) = filter (\<lambda>(k, e). clock s < expiresAt e) (live (store s)))
       \<and> (\<not> lazyEviction s \<longrightarrow> fst (collect entries s) = live (store s))"
proof -
  obtain r it' s' where sc: "scan i s = (r, it', s')"
    by (cases "scan i s")
  note step = scan_step[OF assms sc]
  have one: "case entries_next (At i) s of
            (None, it', s') \<Rightarrow>
              it' = Done \<and> (\<forall>p \<in> set (drop i (store s)). evict s p = None)
              \<and> store s' = take i (store s) @ map (\<lambda>_. None) (drop i (store s))
          | (Some (k, v), it', s') \<Rightarrow>
              (\<exists>e skipped rest.
                 v = val e
                 \<and> drop i (store s) = skipped @ Some (k, e) # rest
                 \<and> (\<forall>p \<in> set skipped. evict s p = None)
                 \<and> it' = At (Suc (i + length skipped))
                 \<and> store s' = take i (store s) @ map (\<lambda>_. None) skipped @ Some (k, e) # rest
                 \<and> (lazyEviction s \<longrightarrow> clock s < expiresAt e)
                 \<and> has k s' = (True, s') \<and> get k s' = (Some v, s'))"
  proof (cases r)
    case None
    with step show ?thesis by (simp add: entries_next_def next_of_def sc)
  next
    case (Some x)
    obtain k e where x: "x = (k, e)" by (cases x)
    from step[unfolded Some x] obtain skipped rest where
      "drop i (store s) = skipped @ Some (k, e) # rest"
      "\<forall>p \<in> set skipped. evict s p = None"
      "it' = At (Suc (i + length skipped))"
      "store s' = take i (store s) @ map (\<lambda>_. None) skipped @ Some (k, e) # rest"
      "passes s e" "has k s' = (True, s')" "get k s' = (Some (val e), s')"
      by auto
    note found = this
    have "\<exists>e' sk rs.
                 val e = val e'
                 \<and> drop i (store s) = sk @ Some (k, e') # rs
                 \<and> (\<forall>p \<in> set sk. evict s p = None)
                 \<and> it' = At (Suc (i + length sk))
                 \<and> store s' = take i (store s) @ map (\<lambda>_. None) sk @ Some (k, e') # rs
                 \<and> (lazyEviction s \<longrightarrow> clock s < expiresAt e')
                 \<and> has k s' = (True, s') \<and> get k s' = (Some (val e), s')"
      apply (rule exI[of _ e], rule exI[of _ skipped], rule exI[of _ rest])
      using found by (auto simp add: passes_def)
    then show ?thesis
      by (simp add: entries_next_def next_of_def sc Some x)
  qed
  have two: "keys_next (At i) s = (case entries_next (At i) s of (r, it', s') \<Rightarrow> (map_option fst r, it', s'))"
    by (cases r) (auto simp: keys_next_def entries_next_def next_of_def sc)
  have three: "values_next (At i) s = (case entries_next (At i) s of (r, it', s') \<Rightarrow> (map_option snd r, it', s'))"
    by (cases r) (auto simp: values_next_def entries_next_def next_of_def sc)
  have four: "entries_next Done s = (None, Done, s)"
    by (simp add: entries_next_def next_of_def)
  have "store s = take i (store s) @ drop i (store s)" by simp
  from collect_result[OF assms(1) this] assms(2)
  have five: "fst (collect (At i) s) = filter (\<lambda>(k, e). passes s e) (live (drop i (store s)))"
    by simp
  from collect_result[OF assms(1), of "[]" "store s"]
  have all: "fst (collect entries s) = filter (\<lambda>(k, e). passes s e) (live (store s))"
    by (simp add: entries_def)
  have six: "lazyEviction s \<longrightarrow>
            fst (collect entries s) = filter (\<lambda>(k, e). clock s < expiresAt e) (live (store s))"
    by (auto simp: all passes_def intro!: filter_cong)
  have seven: "\<not> lazyEviction s \<longrightarrow> fst (collect entries s) = live (store s)"
    by (simp add: all passes_def)
  from one two three four five six seven show ?thesis by blast
qed


theorem generators_yield_checked_entries_witness:
  "keys_distinct (store (set_op ''b'' 2 (Some 100) (set_op ''a'' 1 None lazy_map)))
   \<and> entries_next entries (set_op ''b'' 2 (Some 100) (set_op ''a'' 1 None lazy_map))
       = (Some (''a'', 1), At 1, set_op ''b'' 2 (Some 100) (set_op ''a'' 1 None lazy_map))
   \<and> fst (entries_next (At 1) (elapse 120 (set_op ''b'' 2 (Some 100) (set_op ''a'' 1 None lazy_map)))) = None
   \<and> fst (snd (entries_next (At 1) (elapse 120 (set_op ''b'' 2 (Some 100) (set_op ''a'' 1 None lazy_map))))) = Done
   \<and> notified (snd (snd (entries_next (At 1) (elapse 120 (set_op ''b'' 2 (Some 100) (set_op ''a'' 1 None lazy_map))))))
       = [(''b'', 2)]
   \<and> fst (keys_next keys (elapse 70 (set_op ''b'' 2 (Some 100) (set_op ''a'' 1 None lazy_map)))) = Some ''b''
   \<and> fst (values_next values_gen (elapse 70 (set_op ''b'' 2 (Some 100) (set_op ''a'' 1 None lazy_map)))) = Some 2
   \<and> map fst (fst (collect entries (elapse 70 (set_op ''b'' 2 (Some 100) (set_op ''a'' 1 None lazy_map))))) = [''b'']
   \<and> map fst (fst (collect entries (set_op ''b'' 2 (Some 100) (set_op ''a'' 1 None lazy_map)))) = [''a'', ''b'']
   \<and> map fst (fst (collect entries (elapse 70 (set_op ''b'' 2 (Some 100) (set_op ''a'' 1 None eager_map))))) = [''a'', ''b'']"
  using generators_yield_checked_entries
          [where s = "set_op ''b'' 2 (Some 100) (set_op ''a'' 1 None lazy_map)" and i = 0]
        generators_yield_checked_entries
          [where s = "elapse 120 (set_op ''b'' 2 (Some 100) (set_op ''a'' 1 None lazy_map))" and i = 1]
        generators_yield_checked_entries
          [where s = "elapse 70 (set_op ''b'' 2 (Some 100) (set_op ''a'' 1 None lazy_map))" and i = 0]
        generators_yield_checked_entries
          [where s = "elapse 70 (set_op ''b'' 2 (Some 100) (set_op ''a'' 1 None eager_map))" and i = 0]
  by (simp add: eval_defs gen_defs scan.simps)


end
